theory Spec2Isabelle
  imports Main
begin

section \<open>Bytes, C strings and C integer conversions\<close>

text \<open>
  A \<open>std::string\<close> is a list of bytes (\<^typ>\<open>string\<close>); it may hold NUL bytes.
  \<open>c_str()\<close> is the same bytes followed by one NUL terminator, and every read through a
  \<open>const char *\<close> is a read of that memory: \<open>read_mem\<close> returns \<open>None\<close> for an
  address outside it, and a function that performs such a read returns \<open>None\<close>
  (undefined behaviour in C++).
\<close>

definition NUL :: char where
  "NUL = CHR 0x00"

definition dquote :: char where
  "dquote = CHR 0x22"

definition backslash :: char where
  "backslash = CHR 0x5C"

definition c_str :: "string \<Rightarrow> string" where
  "c_str st = st @ [NUL]"

definition strlen :: "string \<Rightarrow> nat" where
  "strlen mem = length (takeWhile (\<lambda>c. c \<noteq> NUL) mem)"

definition read_mem :: "string \<Rightarrow> int \<Rightarrow> char option" where
  "read_mem mem a = (if 0 \<le> a \<and> a < int (length mem) then Some (mem ! nat a) else None)"

text \<open>The value of an \<open>unsigned char\<close>, and of a plain \<open>char\<close>, whose signedness is the
  ABI's: signed on x86/x86-64 (Linux, macOS, Windows), unsigned on AArch64 Linux.\<close>

definition uchar :: "char \<Rightarrow> int" where
  "uchar c = int (of_char c)"

definition char_value :: "bool \<Rightarrow> char \<Rightarrow> int" where
  "char_value char_signed c =
     (if char_signed \<and> 128 \<le> uchar c then uchar c - 256 else uchar c)"

text \<open>Conversion of an \<open>int\<close> to \<open>unsigned int\<close> (32 bits; the result is its value), of
  a \<open>size_t\<close> (64 bits) to \<open>int\<close>, and of an \<open>int\<close> to \<open>size_t\<close>.\<close>

definition to_unsigned :: "int \<Rightarrow> int" where
  "to_unsigned i = i mod 2 ^ 32"

definition to_int :: "nat \<Rightarrow> int" where
  "to_int n = (let m = int n mod 2 ^ 32 in if m < 2 ^ 31 then m else m - 2 ^ 32)"

definition to_size_t :: "int \<Rightarrow> nat" where
  "to_size_t i = nat (i mod 2 ^ 64)"

section \<open>Percent encoding\<close>

text \<open>\<open>hex2nibble\<close>, \<open>hex2char\<close>: an ASCII hex digit to its value; any other byte is 0.\<close>

definition hex2nibble :: "char \<Rightarrow> nat" where
  "hex2nibble c =
     (if uchar (CHR ''0'') \<le> uchar c \<and> uchar c \<le> uchar (CHR ''9'')
        then nat (uchar c - uchar (CHR ''0''))
      else if uchar (CHR ''a'') \<le> uchar c \<and> uchar c \<le> uchar (CHR ''f'')
        then 10 + nat (uchar c - uchar (CHR ''a''))
      else if uchar (CHR ''A'') \<le> uchar c \<and> uchar c \<le> uchar (CHR ''F'')
        then 10 + nat (uchar c - uchar (CHR ''A''))
      else 0)"

definition hex2char :: "char \<Rightarrow> char \<Rightarrow> char" where
  "hex2char p0 p1 = char_of (hex2nibble p0 * 16 + hex2nibble p1)"

text \<open>\<open>isalnum\<close> of the C library in the "C" locale. Its argument is an \<open>int\<close>; a value
  that is no \<open>unsigned char\<close> (a negative \<open>char\<close>) is classified as not alphanumeric, as
  the table lookup of glibc does.\<close>

definition isalnum :: "int \<Rightarrow> bool" where
  "isalnum v = ((48 \<le> v \<and> v \<le> 57) \<or> (65 \<le> v \<and> v \<le> 90) \<or> (97 \<le> v \<and> v \<le> 122))"

text \<open>\<open>snprintf(hex, sizeof(hex), "%%%02x", c)\<close> with \<open>char hex[4]\<close>: the \<open>char\<close> is
  promoted to \<open>int\<close> and printed as an \<open>unsigned int\<close> in lower-case hex, zero-padded to
  two digits; at most three bytes of the output fit before the terminator.\<close>

definition hex_digit :: "int \<Rightarrow> char" where
  "hex_digit d = ''0123456789abcdef'' ! nat (d mod 16)"

function hex_digits :: "int \<Rightarrow> string" where
  "hex_digits n = (if n < 16 then [hex_digit n] else hex_digits (n div 16) @ [hex_digit n])"
  by pat_completeness auto
termination
  by (relation "measure nat") auto

declare hex_digits.simps [simp del]

definition printf_02x :: "int \<Rightarrow> string" where
  "printf_02x v = (let ds = hex_digits v in if length ds < 2 then CHR ''0'' # ds else ds)"

definition snprintf_hex :: "int \<Rightarrow> string" where
  "snprintf_hex c = take 3 (CHR ''%'' # printf_02x (to_unsigned c))"

text \<open>\<open>url_encode\<close>: the loop over the bytes of \<open>s\<close>, appending to \<open>encoded\<close>. (The
  counter is an \<open>unsigned int\<close>: the model is of strings shorter than \<open>2^32\<close> bytes.)\<close>

definition url_encode_char :: "bool \<Rightarrow> char \<Rightarrow> string" where
  "url_encode_char char_signed c =
     (if isalnum (char_value char_signed c) \<or> c = CHR ''-'' \<or> c = CHR ''_'' \<or>
         c = CHR ''.'' \<or> c = CHR ''~''
      then [c]
      else snprintf_hex (char_value char_signed c))"

primrec url_encode_loop :: "bool \<Rightarrow> string \<Rightarrow> string \<Rightarrow> string" where
  "url_encode_loop char_signed [] encoded = encoded"
| "url_encode_loop char_signed (c # cs) encoded =
     url_encode_loop char_signed cs (encoded @ url_encode_char char_signed c)"

definition url_encode :: "bool \<Rightarrow> string \<Rightarrow> string" where
  "url_encode char_signed s = url_encode_loop char_signed s []"

text \<open>\<open>url_decode\<close> works on \<open>st.c_str()\<close> up to its first NUL. After a percent sign it
  reads the next two bytes unconditionally.\<close>

function url_decode_loop :: "string \<Rightarrow> nat \<Rightarrow> nat \<Rightarrow> string \<Rightarrow> string option" where
  "url_decode_loop s len i decoded =
     (if i < len then
        (case read_mem s (int i) of
           None \<Rightarrow> None
         | Some c \<Rightarrow>
             if c = CHR ''%'' then
               (case (read_mem s (int i + 1), read_mem s (int i + 2)) of
                  (Some p0, Some p1) \<Rightarrow>
                    url_decode_loop s len (i + 2 + 1) (decoded @ [hex2char p0 p1])
                | _ \<Rightarrow> None)
             else if c = CHR ''+'' then url_decode_loop s len (i + 1) (decoded @ '' '')
             else url_decode_loop s len (i + 1) (decoded @ [c]))
      else Some decoded)"
  by pat_completeness auto
termination
  by (relation "measure (\<lambda>(s, len, i, decoded). len - i)") auto

declare url_decode_loop.simps [simp del]

definition url_decode :: "string \<Rightarrow> string option" where
  "url_decode st = (let s = c_str st in url_decode_loop s (strlen s) 0 [])"

definition html_from_uri :: "string \<Rightarrow> string option" where
  "html_from_uri s =
     (if take 15 s = ''data:text/html,'' then url_decode (drop 15 s) else Some [])"

section \<open>The JSON scanner\<close>

datatype json_state =
  JSON_STATE_VALUE | JSON_STATE_LITERAL | JSON_STATE_STRING | JSON_STATE_ESCAPE | JSON_STATE_UTF8

datatype json_action =
  JSON_ACTION_NONE | JSON_ACTION_START | JSON_ACTION_END |
  JSON_ACTION_START_STRUCT | JSON_ACTION_END_STRUCT

text \<open>
  The local variables of \<open>json_parse_c\<close>. Pointers into the buffer are offsets from its
  first byte (\<open>NULL\<close> is \<open>None\<close>); the fields carry the prefix \<open>j_\<close>. \<open>depth\<close>,
  \<open>index\<close> and \<open>utf8_bytes\<close> are C \<open>int\<close>s that move by at most one per byte read, so
  they are modelled as unbounded integers (no overflow below \<open>2^31\<close> bytes of input);
  pointer differences are taken exactly (object sizes are below \<open>SIZE_MAX\<close>).
\<close>

record scan =
  j_s :: int
  j_sz :: nat
  j_state :: json_state
  j_k :: "int option"
  j_index :: int
  j_depth :: int
  j_utf8_bytes :: int
  j_value :: "int option"

text \<open>What \<open>json_parse_c\<close> hands back: its return code, \<open>*value\<close> and \<open>*valuesz\<close>; or
  \<open>Bad_read\<close> when it read outside the memory it was given.\<close>

datatype json_result = Returned int "int option" nat | Bad_read

text \<open>The \<open>switch (state)\<close> of one iteration: \<open>return -1\<close>, \<open>continue\<close>, or leaving the
  switch with a new state, \<open>utf8_bytes\<close>, whether \<open>s--, sz++\<close> was done, and the action.
  The \<open>JSON_STATE_LITERAL\<close> case has no \<open>break\<close>: it falls through into the
  \<open>JSON_STATE_STRING\<close> case with the same byte.\<close>

datatype switch_result = Fail | Continue | Leave json_state int bool json_action

definition string_case :: "char \<Rightarrow> json_state \<Rightarrow> int \<Rightarrow> bool \<Rightarrow> json_action \<Rightarrow> switch_result" where
  "string_case c st u back act =
     (if uchar c < 32 \<or> (uchar c > 126 \<and> uchar c < 192) then Fail
      else if c = dquote then Leave JSON_STATE_VALUE u back JSON_ACTION_END
      else if c = backslash then Leave JSON_STATE_ESCAPE u back act
      else if uchar c \<ge> 192 \<and> uchar c < 224 then Leave JSON_STATE_UTF8 1 back act
      else if uchar c \<ge> 224 \<and> uchar c < 240 then Leave JSON_STATE_UTF8 2 back act
      else if uchar c \<ge> 240 \<and> uchar c < 247 then Leave JSON_STATE_UTF8 3 back act
      else if uchar c \<ge> 128 \<and> uchar c < 192 then Fail
      else Leave st u back act)"

fun json_switch :: "json_state \<Rightarrow> int \<Rightarrow> char \<Rightarrow> switch_result" where
  "json_switch JSON_STATE_VALUE u c =
     (if c = CHR '' '' \<or> c = CHR 0x09 \<or> c = CHR 0x0A \<or> c = CHR 0x0D \<or> c = CHR '','' \<or>
         c = CHR '':'' then Continue
      else if c = dquote then Leave JSON_STATE_STRING u False JSON_ACTION_START
      else if c = CHR ''{'' \<or> c = CHR ''['' then
        Leave JSON_STATE_VALUE u False JSON_ACTION_START_STRUCT
      else if c = CHR ''}'' \<or> c = CHR '']'' then
        Leave JSON_STATE_VALUE u False JSON_ACTION_END_STRUCT
      else if c = CHR ''t'' \<or> c = CHR ''f'' \<or> c = CHR ''n'' \<or> c = CHR ''-'' \<or>
         (uchar c \<ge> uchar (CHR ''0'') \<and> uchar c \<le> uchar (CHR ''9'')) then
        Leave JSON_STATE_LITERAL u False JSON_ACTION_START
      else Fail)"
| "json_switch JSON_STATE_LITERAL u c =
     (if c = CHR '' '' \<or> c = CHR 0x09 \<or> c = CHR 0x0A \<or> c = CHR 0x0D \<or> c = CHR '','' \<or>
         c = CHR '']'' \<or> c = CHR ''}'' \<or> c = CHR '':'' then
        string_case c JSON_STATE_VALUE u True JSON_ACTION_END
      else if uchar c < 32 \<or> uchar c > 126 then Fail
      else string_case c JSON_STATE_LITERAL u False JSON_ACTION_NONE)"
| "json_switch JSON_STATE_STRING u c = string_case c JSON_STATE_STRING u False JSON_ACTION_NONE"
| "json_switch JSON_STATE_ESCAPE u c =
     (if c = dquote \<or> c = backslash \<or> c = CHR ''/'' \<or> c = CHR ''b'' \<or> c = CHR ''f'' \<or>
         c = CHR ''n'' \<or> c = CHR ''r'' \<or> c = CHR ''t'' \<or> c = CHR ''u'' then
        Leave JSON_STATE_STRING u False JSON_ACTION_NONE
      else Fail)"
| "json_switch JSON_STATE_UTF8 u c =
     (if uchar c < 128 \<or> uchar c > 191 then Fail
      else Leave (if u - 1 = 0 then JSON_STATE_STRING else JSON_STATE_UTF8) (u - 1) False
             JSON_ACTION_NONE)"

text \<open>\<open>memcmp(key, k + 1, keysz) == 0\<close>: \<open>None\<close> when one of the two ranges is not inside
  its memory.\<close>

definition mem_range :: "string \<Rightarrow> int \<Rightarrow> nat \<Rightarrow> string option" where
  "mem_range mem a n =
     (if 0 \<le> a \<and> a + int n \<le> int (length mem) then Some (take n (drop (nat a) mem)) else None)"

definition memcmp_eq :: "string \<Rightarrow> string \<Rightarrow> int \<Rightarrow> nat \<Rightarrow> bool option" where
  "memcmp_eq key buf a n =
     (case (mem_range key 0 n, mem_range buf a n) of
        (Some x, Some y) \<Rightarrow> Some (x = y)
      | _ \<Rightarrow> None)"

text \<open>One pass through the loop body after the switch, from \<open>if (action ==
  JSON_ACTION_END_STRUCT)\<close> to the \<open>s++, sz--\<close> of the \<open>for\<close>: the scan either returns or
  goes round again.\<close>

datatype iter_result = Done json_result | Again scan

definition for_step :: "scan \<Rightarrow> scan" where
  "for_step j = j\<lparr>j_s := j_s j + 1, j_sz := j_sz j - 1\<rparr>"

definition start_struct :: "json_action \<Rightarrow> scan \<Rightarrow> scan" where
  "start_struct action j =
     (if action = JSON_ACTION_START_STRUCT then j\<lparr>j_depth := j_depth j + 1\<rparr> else j)"

definition json_track :: "string \<Rightarrow> string option \<Rightarrow> nat \<Rightarrow> json_action \<Rightarrow> scan \<Rightarrow> iter_result" where
  "json_track buf key keysz action j0 =
     (let j = (if action = JSON_ACTION_END_STRUCT then j0\<lparr>j_depth := j_depth j0 - 1\<rparr> else j0);
          next = (\<lambda>j'. Again (for_step (start_struct action j')))
      in if j_depth j = 1 then
           (if action = JSON_ACTION_START \<or> action = JSON_ACTION_START_STRUCT then
              (if j_index j = 0 then next (j\<lparr>j_value := Some (j_s j)\<rparr>)
               else if keysz > 0 \<and> j_index j = 1 then next (j\<lparr>j_k := Some (j_s j)\<rparr>)
               else next (j\<lparr>j_index := j_index j - 1\<rparr>))
            else if action = JSON_ACTION_END \<or> action = JSON_ACTION_END_STRUCT then
              (if j_value j \<noteq> None \<and> j_index j = 0 then
                 Done (Returned 0 (j_value j) (nat (j_s j + 1 - the (j_value j))))
               else if keysz > 0 \<and> j_k j \<noteq> None then
                 (if int keysz = j_s j - the (j_k j) - 1 then
                    (case key of
                       None \<Rightarrow> Done Bad_read
                     | Some ky \<Rightarrow>
                         (case memcmp_eq ky buf (the (j_k j) + 1) keysz of
                            None \<Rightarrow> Done Bad_read
                          | Some eq \<Rightarrow> next (j\<lparr>j_index := (if eq then 0 else 2), j_k := None\<rparr>)))
                  else next (j\<lparr>j_index := 2, j_k := None\<rparr>))
               else next j)
            else next j)
         else next j)"

definition json_iter :: "string \<Rightarrow> string option \<Rightarrow> nat \<Rightarrow> scan \<Rightarrow> iter_result" where
  "json_iter buf key keysz j =
     (case read_mem buf (j_s j) of
        None \<Rightarrow> Done Bad_read
      | Some c \<Rightarrow>
          (case json_switch (j_state j) (j_utf8_bytes j) c of
             Fail \<Rightarrow> Done (Returned (- 1) (j_value j) 0)
           | Continue \<Rightarrow> Again (for_step j)
           | Leave st u back action \<Rightarrow>
               json_track buf key keysz action
                 (j\<lparr>j_state := st, j_utf8_bytes := u,
                    j_s := (if back then j_s j - 1 else j_s j),
                    j_sz := (if back then j_sz j + 1 else j_sz j)\<rparr>)))"

text \<open>The \<open>for (; sz > 0; s++, sz--)\<close> loop. A literal's terminator is looked at twice
  (\<open>s--, sz++\<close>), the second time in \<open>JSON_STATE_VALUE\<close>, so the loop ends: twice the
  remaining size, plus one inside a literal, decreases.\<close>

definition scan_measure :: "scan \<Rightarrow> nat" where
  "scan_measure j = 2 * j_sz j + (if j_state j = JSON_STATE_LITERAL then 1 else 0)"

lemma string_case_back:
  "string_case c JSON_STATE_VALUE u True JSON_ACTION_END = Leave st u' back action \<Longrightarrow>
   c = CHR '' '' \<or> c = CHR 0x09 \<or> c = CHR 0x0A \<or> c = CHR 0x0D \<or> c = CHR '','' \<or>
     c = CHR '']'' \<or> c = CHR ''}'' \<or> c = CHR '':'' \<Longrightarrow>
   st = JSON_STATE_VALUE \<and> back \<and> action = JSON_ACTION_END \<and> u' = u"
  by (auto simp: string_case_def dquote_def backslash_def uchar_def split: if_splits)

lemma string_case_no_back:
  "string_case c st u False act = Leave st' u' back action \<Longrightarrow> \<not> back"
  by (auto simp: string_case_def split: if_splits)

lemma json_switch_back:
  "json_switch st u c = Leave st' u' back action \<Longrightarrow>
   back \<Longrightarrow> st = JSON_STATE_LITERAL \<and> st' = JSON_STATE_VALUE \<and> action = JSON_ACTION_END"
  by (cases st) (auto split: if_splits dest: string_case_back string_case_no_back)

lemma json_track_Again:
  "json_track buf key keysz action j = Again j' \<Longrightarrow>
   j_sz j' = j_sz j - 1 \<and> j_state j' = j_state j \<and> j_s j' = j_s j + 1"
  by (auto simp: json_track_def Let_def for_step_def start_struct_def
      split: if_splits option.splits)

lemma json_iter_measure:
  assumes "json_iter buf key keysz j = Again j'" and "0 < j_sz j"
  shows "scan_measure j' < scan_measure j"
proof (cases "read_mem buf (j_s j)")
  case None
  with assms show ?thesis by (simp add: json_iter_def)
next
  case (Some c)
  show ?thesis
  proof (cases "json_switch (j_state j) (j_utf8_bytes j) c")
    case Fail
    with Some assms show ?thesis by (simp add: json_iter_def)
  next
    case Continue
    with Some assms show ?thesis
      by (auto simp: json_iter_def for_step_def scan_measure_def)
  next
    case (Leave st u bk action)
    with Some assms(1) have tr: "json_track buf key keysz action
        (j\<lparr>j_state := st, j_utf8_bytes := u, j_s := (if bk then j_s j - 1 else j_s j),
           j_sz := (if bk then j_sz j + 1 else j_sz j)\<rparr>) = Again j'"
      by (simp add: json_iter_def)
    show ?thesis
    proof (cases bk)
      case True
      with Leave have "j_state j = JSON_STATE_LITERAL" "st = JSON_STATE_VALUE"
        using json_switch_back by blast+
      with json_track_Again [OF tr] True assms(2) show ?thesis
        by (auto simp: scan_measure_def)
    next
      case False
      with json_track_Again [OF tr] assms(2) show ?thesis
        by (auto simp: scan_measure_def)
    qed
  qed
qed

function json_loop :: "string \<Rightarrow> string option \<Rightarrow> nat \<Rightarrow> scan \<Rightarrow> json_result" where
  "json_loop buf key keysz j =
     (if j_sz j > 0 then
        (case json_iter buf key keysz j of
           Done r \<Rightarrow> r
         | Again j' \<Rightarrow> json_loop buf key keysz j')
      else Returned (- 1) (j_value j) 0)"
  by pat_completeness auto
termination
  by (relation "measure (\<lambda>(buf, key, keysz, j). scan_measure j)")
    (auto dest: json_iter_measure)

declare json_loop.simps [simp del]

text \<open>\<open>json_parse_c(s, sz, key, keysz, value, valuesz)\<close>: \<open>buf\<close> is the \<open>sz\<close> bytes at
  \<open>s\<close>, \<open>key\<close> the memory at \<open>key\<close> (\<open>None\<close> for \<open>NULL\<close>, when \<open>keysz\<close> is the
  position looked for). With \<open>key == NULL\<close> the function starts from \<open>index = keysz\<close>
  and \<open>keysz = 0\<close>, otherwise from \<open>index = 1\<close>.\<close>

definition json_init :: "string \<Rightarrow> string option \<Rightarrow> nat \<Rightarrow> scan" where
  "json_init buf key keysz =
     \<lparr>j_s = 0, j_sz = length buf, j_state = JSON_STATE_VALUE, j_k = None,
      j_index = (if key = None then to_int keysz else 1), j_depth = 0, j_utf8_bytes = 0,
      j_value = None\<rparr>"

definition json_keysz :: "string option \<Rightarrow> nat \<Rightarrow> nat" where
  "json_keysz key keysz = (if key = None then 0 else keysz)"

definition json_parse_c :: "string \<Rightarrow> string option \<Rightarrow> nat \<Rightarrow> json_result" where
  "json_parse_c buf key keysz =
     json_loop buf key (json_keysz key keysz) (json_init buf key keysz)"

text \<open>The bytes of the span \<open>[value, value + valuesz)\<close> a result designates.\<close>

definition span_of :: "string \<Rightarrow> json_result \<Rightarrow> string option" where
  "span_of buf r =
     (case r of
        Returned rc (Some v) n \<Rightarrow> mem_range buf v n
      | _ \<Rightarrow> None)"

section \<open>JSON string escaping\<close>

text \<open>\<open>json_escape\<close> only adds the quotes (the source says \<open>TODO: implement\<close>).\<close>

definition json_escape :: "string \<Rightarrow> string" where
  "json_escape s = dquote # s @ [dquote]"

text \<open>The \<open>switch (*s)\<close> after a backslash: the byte the escape stands for, \<open>None\<close> for
  the \<open>default\<close> case.\<close>

definition unescape_char :: "char \<Rightarrow> char option" where
  "unescape_char e =
     (if e = CHR ''b'' then Some (CHR 0x08)
      else if e = CHR ''f'' then Some (CHR 0x0C)
      else if e = CHR ''n'' then Some (CHR 0x0A)
      else if e = CHR ''r'' then Some (CHR 0x0D)
      else if e = CHR ''t'' then Some (CHR 0x09)
      else if e = backslash then Some backslash
      else if e = CHR ''/'' then Some (CHR ''/'')
      else if e = dquote then Some dquote
      else None)"

text \<open>\<open>json_unescape(s, n, out)\<close>: \<open>mem\<close> is the memory at \<open>s\<close>. The result is the
  return code with the bytes stored through \<open>out\<close> so far (kept also for \<open>out = NULL\<close>,
  where nothing is stored: see \<open>json_unescape\<close>), or \<open>None\<close> after a read outside
  \<open>mem\<close>. \<open>i\<close> is the offset of \<open>s\<close>.\<close>

function unescape_loop :: "string \<Rightarrow> int \<Rightarrow> nat \<Rightarrow> int \<Rightarrow> string \<Rightarrow> (int \<times> string) option" where
  "unescape_loop mem i n r out =
     (if n > 2 then
        (case read_mem mem i of
           None \<Rightarrow> None
         | Some c \<Rightarrow>
             if c = backslash then
               (case read_mem mem (i + 1) of
                  None \<Rightarrow> None
                | Some e \<Rightarrow>
                    (case unescape_char e of
                       None \<Rightarrow> Some (- 1, out)
                     | Some c' \<Rightarrow> unescape_loop mem (i + 1 + 1) (n - 1 - 1) (r + 1) (out @ [c'])))
             else unescape_loop mem (i + 1) (n - 1) (r + 1) (out @ [c]))
      else
        (case read_mem mem i of
           None \<Rightarrow> None
         | Some c \<Rightarrow> if c \<noteq> dquote then Some (- 1, out) else Some (r, out @ [NUL])))"
  by pat_completeness auto
termination
  by (relation "measure (\<lambda>(mem, i, n, r, out). n)") auto

declare unescape_loop.simps [simp del]

definition json_unescape :: "string \<Rightarrow> nat \<Rightarrow> bool \<Rightarrow> (int \<times> string) option" where
  "json_unescape mem n out_given =
     (case read_mem mem 0 of
        None \<Rightarrow> None
      | Some c \<Rightarrow>
          if c \<noteq> dquote then Some (- 1, [])
          else map_option (\<lambda>(r, out). (r, if out_given then out else []))
                 (unescape_loop mem 1 n 0 []))"

text \<open>\<open>json_parse(s, key, index)\<close>. The scanner gets \<open>s.length()\<close> bytes; the pointers it
  returns are then read inside \<open>s.c_str()\<close>. The return code is not looked at, only
  \<open>value\<close>.\<close>

definition json_parse :: "string \<Rightarrow> string \<Rightarrow> int \<Rightarrow> string option" where
  "json_parse s key index =
     (case (if key = [] then json_parse_c s None (to_size_t index)
            else json_parse_c s (Some (c_str key)) (length key)) of
        Bad_read \<Rightarrow> None
      | Returned rc None value_sz \<Rightarrow> Some []
      | Returned rc (Some v) value_sz \<Rightarrow>
          (case read_mem (c_str s) v of
             None \<Rightarrow> None
           | Some c0 \<Rightarrow>
               if c0 \<noteq> dquote then mem_range (c_str s) v value_sz
               else
                 (case json_unescape (drop (nat v) (c_str s)) value_sz False of
                    None \<Rightarrow> None
                  | Some (n, _) \<Rightarrow>
                      if n > 0 then
                        (case json_unescape (drop (nat v) (c_str s)) value_sz True of
                           None \<Rightarrow> None
                         | Some (_, decoded) \<Rightarrow> Some (take (nat n) decoded))
                      else Some [])))"

section \<open>The webview class: navigation, bindings and the call bridge\<close>

text \<open>
  \<open>browser_engine\<close> is one of three platform back ends; the model records the calls made
  to it (\<open>navigate\<close>, \<open>init\<close>, \<open>eval\<close>, \<open>dispatch\<close>) in the order they are made.
  A native callback handed to \<open>bind\<close> is foreign code: it is a value of type \<open>'f\<close>,
  its \<open>void *\<close> argument one of type \<open>'a\<close>, and calling it is recorded in
  \<open>invoked\<close> with the arguments passed.

  A \<open>binding_ctx_t\<close> is the pair stored in \<open>bindings\<close>: the caller's function and
  argument, or, for the overload of \<open>bind\<close> that takes a \<open>sync_binding_t\<close>, the
  adapter lambda with the context holding \<open>this\<close> and the function.
\<close>

datatype ('f, 'a) binding_ctx = Binding 'f 'a | Sync_binding "string \<Rightarrow> string"

text \<open>The closure \<open>resolve\<close> posts; it captures its three arguments by value.\<close>

datatype closure = Resolve_closure string int string

record ('f, 'a) webview =
  bindings :: "string \<rightharpoonup> ('f, 'a) binding_ctx"
  navigated :: "string list"
  init_js :: "string list"
  dispatched :: "closure list"
  evaluated :: "string list"
  invoked :: "('f \<times> string \<times> string \<times> 'a) list"

definition engine_navigate :: "string \<Rightarrow> ('f, 'a) webview \<Rightarrow> ('f, 'a) webview" where
  "engine_navigate url w = w\<lparr>navigated := navigated w @ [url]\<rparr>"

definition engine_init :: "string \<Rightarrow> ('f, 'a) webview \<Rightarrow> ('f, 'a) webview" where
  "engine_init js w = w\<lparr>init_js := init_js w @ [js]\<rparr>"

definition engine_eval :: "string \<Rightarrow> ('f, 'a) webview \<Rightarrow> ('f, 'a) webview" where
  "engine_eval js w = w\<lparr>evaluated := evaluated w @ [js]\<rparr>"

definition engine_dispatch :: "closure \<Rightarrow> ('f, 'a) webview \<Rightarrow> ('f, 'a) webview" where
  "engine_dispatch f w = w\<lparr>dispatched := dispatched w @ [f]\<rparr>"

text \<open>\<open>webview::navigate\<close>. \<open>None\<close>: \<open>url_decode\<close> read past the end of the string.\<close>

definition navigate :: "bool \<Rightarrow> string \<Rightarrow> ('f, 'a) webview \<Rightarrow> ('f, 'a) webview option" where
  "navigate char_signed url w =
     (if url = [] then
        Some (engine_navigate
          (''data:text/html,'' @ url_encode char_signed ''<html><body>Hello</body></html>'') w)
      else
        (case html_from_uri url of
           None \<Rightarrow> None
         | Some html \<Rightarrow>
             if html \<noteq> [] then
               Some (engine_navigate (''data:text/html,'' @ url_encode char_signed html) w)
             else Some (engine_navigate url w)))"

text \<open>\<open>webview::bind\<close>: the script handed to \<open>init\<close>, then the store into \<open>bindings\<close>.\<close>

definition bind_js :: "string \<Rightarrow> string" where
  "bind_js name =
     ''(function() { var name = '' @ [CHR 0x27] @ name @ [CHR 0x27] @ '';'' @
      ''\<newline>'' @
      ''      var RPC = window._rpc = (window._rpc || {nextSeq: 1});\<newline>'' @
      ''      window[name] = function() {\<newline>'' @
      ''        var seq = RPC.nextSeq++;\<newline>'' @
      ''        var promise = new Promise(function(resolve, reject) {\<newline>'' @
      ''          RPC[seq] = {\<newline>'' @
      ''            resolve: resolve,\<newline>'' @
      ''            reject: reject,\<newline>'' @
      ''          };\<newline>'' @
      ''        });\<newline>'' @
      ''        window.external.invoke(JSON.stringify({\<newline>'' @
      ''          id: seq,\<newline>'' @
      ''          method: name,\<newline>'' @
      ''          params: Array.prototype.slice.call(arguments),\<newline>'' @
      ''        }));\<newline>'' @
      ''        return promise;\<newline>'' @
      ''      }\<newline>'' @
      ''    })()''"

definition bind_ctx :: "string \<Rightarrow> ('f, 'a) binding_ctx \<Rightarrow> ('f, 'a) webview \<Rightarrow> ('f, 'a) webview" where
  "bind_ctx name b w = (let w' = engine_init (bind_js name) w in w'\<lparr>bindings := (bindings w')(name \<mapsto> b)\<rparr>)"

definition bind :: "string \<Rightarrow> 'f \<Rightarrow> 'a \<Rightarrow> ('f, 'a) webview \<Rightarrow> ('f, 'a) webview" where
  "bind name f arg w = bind_ctx name (Binding f arg) w"

definition bind_sync :: "string \<Rightarrow> (string \<Rightarrow> string) \<Rightarrow> ('f, 'a) webview \<Rightarrow> ('f, 'a) webview" where
  "bind_sync name fn w = bind_ctx name (Sync_binding fn) w"

text \<open>\<open>webview::resolve\<close> posts a closure; \<open>run_closure\<close> is its body, run later by the
  engine on the thread that owns the window (\<open>run_dispatched\<close>).\<close>

definition resolve :: "string \<Rightarrow> int \<Rightarrow> string \<Rightarrow> ('f, 'a) webview \<Rightarrow> ('f, 'a) webview" where
  "resolve seq status result w = engine_dispatch (Resolve_closure seq status result) w"

fun run_closure :: "closure \<Rightarrow> ('f, 'a) webview \<Rightarrow> ('f, 'a) webview" where
  "run_closure (Resolve_closure seq status result) w =
     (if status = 0 then
        engine_eval (''window._rpc['' @ seq @ ''].resolve('' @ result @ ''); window._rpc['' @
              seq @ ''] = undefined'') w
      else
        engine_eval (''window._rpc['' @ seq @ ''].reject('' @ result @ ''); window._rpc['' @
              seq @ ''] = undefined'') w)"

definition run_dispatched :: "('f, 'a) webview \<Rightarrow> ('f, 'a) webview" where
  "run_dispatched w =
     (case dispatched w of
        [] \<Rightarrow> w
      | f # fs \<Rightarrow> run_closure f (w\<lparr>dispatched := fs\<rparr>))"

text \<open>\<open>webview::on_message\<close>: the call \<open>(*fn->first)(seq, args, fn->second)\<close> is
  \<open>call_binding\<close>. \<open>None\<close>: one of the three \<open>json_parse\<close> calls read outside the
  message.\<close>

fun call_binding :: "('f, 'a) binding_ctx \<Rightarrow> string \<Rightarrow> string \<Rightarrow> ('f, 'a) webview \<Rightarrow> ('f, 'a) webview" where
  "call_binding (Binding f arg) seq req w = w\<lparr>invoked := invoked w @ [(f, seq, req, arg)]\<rparr>"
| "call_binding (Sync_binding fn) seq req w = resolve seq 0 (fn req) w"

definition on_message :: "string \<Rightarrow> ('f, 'a) webview \<Rightarrow> ('f, 'a) webview option" where
  "on_message msg w =
     (case (json_parse msg ''id'' 0, json_parse msg ''method'' 0, json_parse msg ''params'' 0) of
        (Some seq, Some name, Some args) \<Rightarrow>
          (case bindings w name of
             None \<Rightarrow> Some w
           | Some fn \<Rightarrow> Some (call_binding fn seq args w))
      | _ \<Rightarrow> None)"

text \<open>The public operations of one webview object, and a run of them.\<close>

datatype ('f, 'a) operation =
  Navigate string | Bind string 'f 'a | Bind_sync string "string \<Rightarrow> string" |
  Resolve string int string | On_message string | Run_dispatched

fun exec :: "bool \<Rightarrow> ('f, 'a) operation \<Rightarrow> ('f, 'a) webview \<Rightarrow> ('f, 'a) webview option" where
  "exec cs (Navigate url) w = navigate cs url w"
| "exec cs (Bind name f arg) w = Some (bind name f arg w)"
| "exec cs (Bind_sync name fn) w = Some (bind_sync name fn w)"
| "exec cs (Resolve seq status result) w = Some (resolve seq status result w)"
| "exec cs (On_message msg) w = on_message msg w"
| "exec cs Run_dispatched w = Some (run_dispatched w)"

fun run :: "bool \<Rightarrow> ('f, 'a) operation list \<Rightarrow> ('f, 'a) webview \<Rightarrow> ('f, 'a) webview option" where
  "run cs [] w = Some w"
| "run cs (op # ops) w = (case exec cs op w of None \<Rightarrow> None | Some w' \<Rightarrow> run cs ops w')"

text \<open>The registrations among a list of operations, in the order they were made.\<close>

fun registrations :: "('f, 'a) operation list \<Rightarrow> (string \<times> ('f, 'a) binding_ctx) list" where
  "registrations [] = []"
| "registrations (Bind name f arg # ops) = (name, Binding f arg) # registrations ops"
| "registrations (Bind_sync name fn # ops) = (name, Sync_binding fn) # registrations ops"
| "registrations (_ # ops) = registrations ops"

section \<open>Invariants and observations of the scanner\<close>

text \<open>
  What holds at the head of every iteration of the loop of \<open>json_parse_c\<close>: \<open>s\<close> and
  \<open>sz\<close> together cover the rest of the buffer, a literal has begun before \<open>s\<close>, and
  \<open>k\<close> and \<open>*value\<close>, once set, point before \<open>s\<close>. \<open>key_ok\<close> is the caller's part:
  \<open>key\<close> points to at least \<open>keysz\<close> bytes whenever a key is compared.
\<close>

definition scan_inv :: "string \<Rightarrow> scan \<Rightarrow> bool" where
  "scan_inv buf j =
     (0 \<le> j_s j \<and> j_s j + int (j_sz j) = int (length buf) \<and>
      (if j_state j = JSON_STATE_LITERAL then 0 < j_s j else True) \<and>
      (case j_k j of None \<Rightarrow> True | Some p \<Rightarrow> 0 \<le> p \<and> p < j_s j) \<and>
      (case j_value j of None \<Rightarrow> True | Some v \<Rightarrow> 0 \<le> v \<and> v < j_s j))"

definition key_ok :: "string option \<Rightarrow> nat \<Rightarrow> bool" where
  "key_ok key keysz = (keysz = 0 \<or> (case key of None \<Rightarrow> False | Some ky \<Rightarrow> keysz \<le> length ky))"

text \<open>A result that stays inside the buffer: \<open>0\<close> with a non-empty span inside it, or
  \<open>-1\<close> with size \<open>0\<close> and \<open>*value\<close> either \<open>NULL\<close> or a position inside it.\<close>

fun good_result :: "string \<Rightarrow> json_result \<Rightarrow> bool" where
  "good_result buf Bad_read = False"
| "good_result buf (Returned rc v n) =
     (if rc = 0 then
        (case v of None \<Rightarrow> False | Some p \<Rightarrow> 0 \<le> p \<and> 0 < n \<and> p + int n \<le> int (length buf))
      else rc = - 1 \<and> n = 0 \<and>
        (case v of None \<Rightarrow> True | Some p \<Rightarrow> 0 \<le> p \<and> p < int (length buf)))"

text \<open>\<open>scan_after i\<close>: the variables at the head of the loop after \<open>i\<close> more iterations,
  \<open>None\<close> when the function has returned by then. \<open>scan_at\<close> counts from the call.\<close>

fun scan_after :: "nat \<Rightarrow> string \<Rightarrow> string option \<Rightarrow> nat \<Rightarrow> scan \<Rightarrow> scan option" where
  "scan_after 0 buf key keysz j = Some j"
| "scan_after (Suc i) buf key keysz j =
     (if 0 < j_sz j then
        (case json_iter buf key keysz j of
           Done r \<Rightarrow> None
         | Again j' \<Rightarrow> scan_after i buf key keysz j')
      else None)"

definition scan_at :: "string \<Rightarrow> string option \<Rightarrow> nat \<Rightarrow> nat \<Rightarrow> scan option" where
  "scan_at buf key keysz i =
     scan_after i buf key (json_keysz key keysz) (json_init buf key keysz)"

text \<open>
  The bytes the scan cannot go on from, by state: a control character inside a literal;
  a control character or a UTF-8 continuation byte without its lead byte inside a string;
  anything but a continuation byte inside a multi-byte sequence; a byte that completes no
  escape after a backslash; a byte that starts no value between values.
\<close>

fun malformed :: "json_state \<Rightarrow> char \<Rightarrow> bool" where
  "malformed JSON_STATE_LITERAL c = (uchar c < 32)"
| "malformed JSON_STATE_STRING c = (uchar c < 32 \<or> (128 \<le> uchar c \<and> uchar c < 192))"
| "malformed JSON_STATE_UTF8 c = (uchar c < 128 \<or> 191 < uchar c)"
| "malformed JSON_STATE_ESCAPE c =
     (c \<notin> {dquote, backslash, CHR ''/'', CHR ''b'', CHR ''f'', CHR ''n'', CHR ''r'', CHR ''t'',
            CHR ''u''})"
| "malformed JSON_STATE_VALUE c =
     (c \<notin> {CHR '' '', CHR 0x09, CHR 0x0A, CHR 0x0D, CHR '','', CHR '':'', dquote, CHR ''{'',
            CHR ''['', CHR ''}'', CHR '']'', CHR ''t'', CHR ''f'', CHR ''n'', CHR ''-''}
      \<and> \<not> (uchar (CHR ''0'') \<le> uchar c \<and> uchar c \<le> uchar (CHR ''9'')))"


section \<open>Inputs of the scenarios\<close>

definition scenario_object :: string where
  \<open>scenario_object = ''{"a":1,"b":[1,2,3],"c":"x"}''\<close>

definition add_envelope :: string where
  \<open>add_envelope = ''{"id":1,"method":"add","params":[2,3]}''\<close>

definition unterminated_object :: string where
  \<open>unterminated_object = ''{"a":"x''\<close>

definition control_in_literal :: string where
  "control_in_literal = ''[1,2'' @ [CHR 0x01] @ '']''"

definition control_in_first_literal :: string where
  "control_in_first_literal = ''[1'' @ [CHR 0x01] @ '']''"

definition new_webview :: "(nat, nat) webview" where
  "new_webview =
     \<lparr>bindings = Map.empty, navigated = [], init_js = [], dispatched = [], evaluated = [],
      invoked = []\<rparr>"

text \<open>The bytes the percent encoding leaves alone: ASCII letters and digits and
  \<open>- _ . ~\<close>.\<close>

definition unreserved :: "char \<Rightarrow> bool" where
  "unreserved c =
     (isalnum (uchar c) \<or> c = CHR ''-'' \<or> c = CHR ''_'' \<or> c = CHR ''.'' \<or> c = CHR ''~'')"

text \<open>
  The strings on which \<open>url_decode\<close> stays inside \<open>c_str()\<close>: up to the first NUL, no
  percent sign that begins an escape is the last byte of the string (the terminator is the
  only byte after it, and two are read).
\<close>

fun url_decodable :: "string \<Rightarrow> bool" where
  "url_decodable [] = True"
| "url_decodable (c # cs) =
     (if c = NUL then True
      else if c = CHR ''%'' then
        (case cs of
           [] \<Rightarrow> False
         | [a] \<Rightarrow> True
         | a # b # rest \<Rightarrow> if a = NUL \<or> b = NUL then True else url_decodable rest)
      else url_decodable cs)"

text \<open>A string body that is a sequence of whole units as \<open>json_unescape\<close> reads them:
  a byte other than a backslash, or a backslash with the byte after it.\<close>

fun escape_units :: "string \<Rightarrow> bool" where
  "escape_units [] = True"
| "escape_units [c] = (c \<noteq> backslash)"
| "escape_units (c # e # cs) = (if c = backslash then escape_units cs else escape_units (e # cs))"

section \<open>Properties of the codecs\<close>

lemma url_encode_loop_append:
  "url_encode_loop sc s acc = acc @ concat (map (url_encode_char sc) s)"
  by (induction s arbitrary: acc) simp_all

lemma url_encode_concat: "url_encode sc s = concat (map (url_encode_char sc) s)"
  by (simp add: url_encode_def url_encode_loop_append)

lemma uchar_bounds: "0 \<le> uchar c \<and> uchar c < 256"
  by (simp add: uchar_def)

lemma printf_02x_byte:
  assumes "0 \<le> n" and "n < 256"
  shows "printf_02x n = [hex_digit (n div 16), hex_digit (n mod 16)]"
proof -
  have m: "hex_digit n = hex_digit (n mod 16)" by (simp add: hex_digit_def)
  show ?thesis
  proof (cases "n < 16")
    case True
    with assms(1) have "n mod 16 = n" by simp
    moreover from True assms(1) have "n div 16 = 0" by simp
    ultimately show ?thesis using True
      by (simp add: printf_02x_def hex_digit_def hex_digits.simps [of n])
  next
    case False
    with assms have "n div 16 < 16" by simp
    with False show ?thesis
      by (simp add: printf_02x_def m hex_digits.simps [of n] hex_digits.simps [of "n div 16"])
  qed
qed

lemma url_encode_char_unsigned:
  "url_encode_char False c =
     (if unreserved c then [c]
      else [CHR ''%'', hex_digit (uchar c div 16), hex_digit (uchar c mod 16)])"
proof -
  from uchar_bounds [of c] have b: "0 \<le> uchar c" "uchar c < 256" by simp_all
  then have "uchar c mod 4294967296 = uchar c"
    by (intro mod_pos_pos_trivial) linarith+
  then have "to_unsigned (uchar c) = uchar c"
    by (simp add: to_unsigned_def)
  with b show ?thesis
    by (simp add: url_encode_char_def char_value_def unreserved_def snprintf_hex_def
        printf_02x_byte)
qed

lemma url_encode_char_unsigned_fun:
  "url_encode_char False =
     (\<lambda>c. if unreserved c then [c]
          else [CHR ''%'', hex_digit (uchar c div 16), hex_digit (uchar c mod 16)])"
  by (rule ext) (rule url_encode_char_unsigned)

lemma url_encode_char_ascii:
  "uchar c < 128 \<Longrightarrow> url_encode_char True c = url_encode_char False c"
  by (simp add: url_encode_char_def char_value_def)

text \<open>
  Where \<open>char\<close> is unsigned, and on every platform for the bytes below \<open>0x80\<close>,
  \<open>url_encode\<close> keeps the unreserved bytes and writes any other byte as a percent sign
  and the two lower-case hex digits of its value.
\<close>

theorem url_encode_unsigned:
  "url_encode False s =
     concat (map (\<lambda>c. if unreserved c then [c]
                       else [CHR ''%'', hex_digit (uchar c div 16),
                             hex_digit (uchar c mod 16)]) s)"
  by (simp only: url_encode_concat url_encode_char_unsigned_fun)

theorem url_encode_ascii:
  assumes "list_all (\<lambda>c. uchar c < 128) s"
  shows "url_encode cs s =
     concat (map (\<lambda>c. if unreserved c then [c]
                       else [CHR ''%'', hex_digit (uchar c div 16),
                             hex_digit (uchar c mod 16)]) s)"
proof -
  from assms have "map (url_encode_char True) s = map (url_encode_char False) s"
    by (induction s) (simp_all add: url_encode_char_ascii)
  then have "map (url_encode_char cs) s = map (url_encode_char False) s"
    by (cases cs) simp_all
  then show ?thesis
    by (simp only: url_encode_concat url_encode_char_unsigned_fun)
qed

theorem url_encode_ascii_witness:
  "url_encode True ''<html><body>Hello</body></html>''
     = ''%3chtml%3e%3cbody%3eHello%3c%2fbody%3e%3c%2fhtml%3e''"
proof -
  have a: "list_all (\<lambda>c. uchar c < 128) ''<html><body>Hello</body></html>''"
    by code_simp
  have b: "concat (map (\<lambda>c. if unreserved c then [c]
                       else [CHR ''%'', hex_digit (uchar c div 16),
                             hex_digit (uchar c mod 16)])
             ''<html><body>Hello</body></html>'')
        = ''%3chtml%3e%3cbody%3eHello%3c%2fbody%3e%3c%2fhtml%3e''"
    by code_simp
  show ?thesis
    by (rule trans [OF url_encode_ascii [OF a] b])
qed

text \<open>
  Claim C7 fails where \<open>char\<close> is signed (x86 and x86-64): \<open>url_encode\<close> passes the
  \<open>char\<close> itself to \<open>snprintf\<close>, a byte from \<open>0x80\<close> up is negative, is printed as
  \<open>ffffff..\<close>, and the four-byte buffer keeps \<open>%ff\<close>. The byte \<open>0xE9\<close> is encoded as
  \<open>%ff\<close>, not as \<open>%e9\<close>; with an unsigned \<open>char\<close> it is \<open>%e9\<close>.
\<close>

theorem url_encode_high_byte:
  "url_encode True [CHR 0xE9] = ''%ff'' \<and> url_encode False [CHR 0xE9] = ''%e9''"
  by code_simp

lemma url_decode_loop_length:
  "url_decode_loop s len i decoded = Some d \<Longrightarrow>
   length decoded + (if i < len then 1 else 0) \<le> length d"
proof (induction s len i decoded rule: url_decode_loop.induct)
  case (1 s len i decoded)
  show ?case
  proof (cases "i < len")
    case False
    with "1.prems" show ?thesis by (subst (asm) url_decode_loop.simps) simp
  next
    case True
    note lt = this
    from "1.prems" lt obtain c where c: "read_mem s (int i) = Some c"
      by (subst (asm) url_decode_loop.simps) (auto split: option.splits)
    show ?thesis
    proof (cases "c = CHR ''%''")
      case True
      with "1.prems" lt c obtain p0 p1 where
        p: "read_mem s (int i + 1) = Some p0" "read_mem s (int i + 2) = Some p1"
        and r: "url_decode_loop s len (i + 2 + 1) (decoded @ [hex2char p0 p1]) = Some d"
        by (subst (asm) url_decode_loop.simps) (auto split: option.splits)
      from "1.IH"(1) [OF lt c True refl p r] lt show ?thesis
        by (simp split: if_splits)
    next
      case False
      note np = this
      show ?thesis
      proof (cases "c = CHR ''+''")
        case True
        with "1.prems" lt c np have
          r: "url_decode_loop s len (i + 1) (decoded @ '' '') = Some d"
          by (subst (asm) url_decode_loop.simps) auto
        from "1.IH"(2) [OF lt c np True r] lt show ?thesis
          by (simp split: if_splits)
      next
        case False
        with "1.prems" lt c np have
          r: "url_decode_loop s len (i + 1) (decoded @ [c]) = Some d"
          by (subst (asm) url_decode_loop.simps) auto
        from "1.IH"(3) [OF lt c np False r] lt show ?thesis
          by (simp split: if_splits)
      qed
    qed
  qed
qed

lemma strlen_c_str_0: "strlen (c_str rest) = 0 \<longleftrightarrow> rest = [] \<or> hd rest = NUL"
  by (cases rest) (auto simp: strlen_def c_str_def)

lemma url_decode_empty:
  "url_decode rest = Some [] \<longleftrightarrow> rest = [] \<or> hd rest = NUL"
proof
  assume a: "url_decode rest = Some []"
  show "rest = [] \<or> hd rest = NUL"
  proof (rule ccontr)
    assume "\<not> (rest = [] \<or> hd rest = NUL)"
    then have "0 < strlen (c_str rest)" using strlen_c_str_0 [of rest] by simp
    with url_decode_loop_length [of "c_str rest" "strlen (c_str rest)" 0 "[]" "[]"] a
    show False by (simp add: url_decode_def Let_def)
  qed
next
  assume "rest = [] \<or> hd rest = NUL"
  then have "strlen (c_str rest) = 0" by (simp add: strlen_c_str_0)
  then show "url_decode rest = Some []"
    by (simp add: url_decode_def Let_def url_decode_loop.simps)
qed

lemma strlen_prefix: "NUL \<notin> set pre \<Longrightarrow> strlen (pre @ x) = length pre + strlen x"
  by (induction pre) (auto simp: strlen_def)

lemma strlen_le: "strlen x \<le> length x"
  by (simp add: strlen_def length_takeWhile_le)

lemma strlen_NUL: "strlen (NUL # x) = 0"
  by (simp add: strlen_def)

lemma strlen_Cons: "c \<noteq> NUL \<Longrightarrow> strlen (c # x) = Suc (strlen x)"
  by (simp add: strlen_def)

lemma read_mem_nth: "read_mem (pre @ x) (int (length pre) + int k) = (if k < length x then Some (x ! k) else None)"
  by (auto simp: read_mem_def nth_append nat_add_distrib)

lemma read_mem_nth0: "read_mem (pre @ x) (int (length pre)) = (if 0 < length x then Some (x ! 0) else None)"
  using read_mem_nth [of pre x 0] by simp

lemma url_decode_loop_done: "\<not> i < len \<Longrightarrow> url_decode_loop s len i d = Some d"
  by (subst url_decode_loop.simps) simp

lemma url_decode_loop_decodable:
  "NUL \<notin> set pre \<Longrightarrow>
   (url_decode_loop (pre @ suf @ [NUL]) (strlen (pre @ suf @ [NUL])) (length pre) d \<noteq> None)
     = url_decodable suf"
proof (induction suf arbitrary: pre d rule: url_decodable.induct)
  case 1
  then show ?case
    by (simp add: strlen_prefix strlen_NUL url_decode_loop_done)
next
  case (2 c cs)
  let ?s = "pre @ (c # cs) @ [NUL]"
  let ?len = "strlen ?s"
  have len: "?len = length pre + strlen (c # cs @ [NUL])"
    using "2.prems" strlen_prefix [of pre "c # cs @ [NUL]"] by simp
  show ?case
  proof (cases "c = NUL")
    case True
    with len have "?len = length pre" by (simp add: strlen_NUL)
    with True show ?thesis by (simp add: url_decode_loop_done)
  next
    case False
    note cn = this
    with len have lt: "length pre < ?len" and len': "?len = Suc (length pre) + strlen (cs @ [NUL])"
      by (simp_all add: strlen_Cons)
    have rc: "read_mem ?s (int (length pre)) = Some c"
      using read_mem_nth0 [of pre "c # cs @ [NUL]"] by simp
    have pre': "NUL \<notin> set (pre @ [c])" using "2.prems" cn by auto
    show ?thesis
    proof (cases "c = CHR ''%''")
      case False
      have step: "url_decode_loop ?s ?len (length pre) d
          = url_decode_loop ?s ?len (length pre + 1) (d @ (if c = CHR ''+'' then '' '' else [c]))"
        using lt rc False by (subst url_decode_loop.simps) simp
      from "2.IH"(2) [OF cn False pre', of "d @ (if c = CHR ''+'' then '' '' else [c])"]
      show ?thesis using cn False step by simp
    next
      case True
      note pc = this
      show ?thesis
      proof (cases cs)
        case Nil
        have "read_mem ?s (int (length pre) + 2) = None"
          using Nil read_mem_nth [of pre "c # cs @ [NUL]" 2] by simp
        with lt rc pc have "url_decode_loop ?s ?len (length pre) d = None"
          by (subst url_decode_loop.simps) (simp split: option.splits)
        with Nil cn pc show ?thesis by simp
      next
        case (Cons a cs')
        note ca = this
        have ra: "read_mem ?s (int (length pre) + 1) = Some a"
          using ca read_mem_nth [of pre "c # cs @ [NUL]" 1] by simp
        show ?thesis
        proof (cases cs')
          case Nil
          have rb: "read_mem ?s (int (length pre) + 2) = Some NUL"
            using ca Nil read_mem_nth [of pre "c # cs @ [NUL]" 2] by simp
          have "?len \<le> length pre + 2"
            using len ca Nil strlen_le [of "c # cs @ [NUL]"] by (simp add: strlen_def split: if_splits)
          then have "url_decode_loop ?s ?len (length pre + 2 + 1) (d @ [hex2char a NUL]) = Some (d @ [hex2char a NUL])"
            by (intro url_decode_loop_done) simp
          with lt rc pc ra rb have "url_decode_loop ?s ?len (length pre) d \<noteq> None"
            by (subst url_decode_loop.simps) simp
          with ca Nil cn pc show ?thesis by simp
        next
          case (Cons b rest)
          note cb = this
          have rb: "read_mem ?s (int (length pre) + 2) = Some b"
            using ca cb read_mem_nth [of pre "c # cs @ [NUL]" 2] by simp
          have step: "url_decode_loop ?s ?len (length pre) d
              = url_decode_loop ?s ?len (length pre + 2 + 1) (d @ [hex2char a b])"
            using lt rc pc ra rb by (subst url_decode_loop.simps) simp
          show ?thesis
          proof (cases "a = NUL \<or> b = NUL")
            case True
            then have "?len \<le> length pre + 2"
              using len ca cb cn by (auto simp: strlen_def)
            then have "url_decode_loop ?s ?len (length pre + 2 + 1) (d @ [hex2char a b]) = Some (d @ [hex2char a b])"
              by (intro url_decode_loop_done) simp
            with step True ca cb cn pc show ?thesis by simp
          next
            case False
            with "2.prems" cn have p3: "NUL \<notin> set (pre @ [c, a, b])" by auto
            from "2.IH"(1) [OF cn pc ca cb False p3, of "d @ [hex2char a b]"]
            show ?thesis using step False ca cb cn pc by simp
          qed
        qed
      qed
    qed
  qed
qed

lemma url_decode_defined: "(url_decode st \<noteq> None) = url_decodable st"
  using url_decode_loop_decodable [of "[]" st "[]"]
  by (simp add: url_decode_def c_str_def Let_def)

section \<open>Navigation\<close>

text \<open>
  Claim C10, as the code has it. The empty url becomes the data URI of the greeting page.
  For a url that begins with \<open>data:text/html,\<close>: when the remainder is decodable
  (\<open>url_decodable\<close>), not empty and does not begin with a NUL byte, the decoded page is
  not empty and the engine gets the prefix followed by its encoding; when the remainder is
  empty or begins with a NUL byte, the decoded page is empty and the url is handed on as
  it is; when the remainder is not decodable, \<open>url_decode\<close> reads past the end of the
  string and \<open>navigate\<close> has no defined result. Every other url is handed on as it is.
\<close>

theorem navigate_rewrites:
  "navigate cs [] w =
     Some (engine_navigate
       (''data:text/html,'' @ url_encode cs ''<html><body>Hello</body></html>'') w)
   \<and> (take 15 url = ''data:text/html,'' \<and> url_decodable (drop 15 url)
        \<and> drop 15 url \<noteq> [] \<and> hd (drop 15 url) \<noteq> NUL \<longrightarrow>
        (\<exists>html. url_decode (drop 15 url) = Some html \<and> html \<noteq> []
           \<and> navigate cs url w =
               Some (engine_navigate (''data:text/html,'' @ url_encode cs html) w)))
   \<and> (take 15 url = ''data:text/html,'' \<and> (drop 15 url = [] \<or> hd (drop 15 url) = NUL) \<longrightarrow>
        navigate cs url w = Some (engine_navigate url w))
   \<and> (take 15 url = ''data:text/html,'' \<and> \<not> url_decodable (drop 15 url) \<longrightarrow>
        navigate cs url w = None)
   \<and> (url \<noteq> [] \<and> take 15 url \<noteq> ''data:text/html,'' \<longrightarrow>
        navigate cs url w = Some (engine_navigate url w))"
proof -
  have ne: "url \<noteq> []" if "take 15 url = ''data:text/html,''"
    using that by auto
  show ?thesis
    using url_decode_empty [of "drop 15 url"] url_decode_defined [of "drop 15 url"] ne
    by (auto simp: navigate_def html_from_uri_def split: option.splits)
qed

theorem navigate_rewrites_witness:
  \<open>map_option navigated (navigate True ''data:text/html,<b>hi</b>%21'' new_webview)
     = Some [''data:text/html,%3cb%3ehi%3c%2fb%3e%21'']
   \<and> map_option navigated (navigate True ''https://example.org/'' new_webview)
     = Some [''https://example.org/'']\<close>
proof -
  have d: "url_decode (drop 15 ''data:text/html,<b>hi</b>%21'') = Some ''<b>hi</b>!''"
    by code_simp
  have e: "url_encode True ''<b>hi</b>!'' = ''%3cb%3ehi%3c%2fb%3e%21''"
    by code_simp
  have u: "url_decodable (drop 15 ''data:text/html,<b>hi</b>%21'')"
    by code_simp
  have h: "hd (drop 15 ''data:text/html,<b>hi</b>%21'') \<noteq> NUL"
    by (simp add: NUL_def)
  have p: "take 15 ''data:text/html,<b>hi</b>%21'' = ''data:text/html,''"
      "drop 15 ''data:text/html,<b>hi</b>%21'' \<noteq> []"
      "take 15 ''https://example.org/'' \<noteq> ''data:text/html,''"
    by simp_all
  from navigate_rewrites [of True new_webview "''data:text/html,<b>hi</b>%21''"] p u h d
  have 1: "navigate True ''data:text/html,<b>hi</b>%21'' new_webview
      = Some (engine_navigate (''data:text/html,'' @ url_encode True ''<b>hi</b>!'') new_webview)"
    by auto
  from navigate_rewrites [of True new_webview "''https://example.org/''"] p(3)
  have 2: "navigate True ''https://example.org/'' new_webview
      = Some (engine_navigate ''https://example.org/'' new_webview)"
    by auto
  show ?thesis
    unfolding 1 2 e by (simp add: engine_navigate_def new_webview_def)
qed

text \<open>Claim C10 as stated fails twice. For the prefix followed by a NUL byte the decoded
  page is empty, so the url is handed on unchanged and not as \<open>data:text/html,\<close> followed
  by the encoding of the decoded remainder. For \<open>data:text/html,100%\<close> the percent sign is
  the last byte, \<open>url_decode\<close> reads past the terminator, and nothing is navigated to in
  the model.\<close>

theorem navigate_counterexample:
  "url_decode [NUL] = Some []
   \<and> map_option navigated (navigate True (''data:text/html,'' @ [NUL]) new_webview)
       = Some [''data:text/html,'' @ [NUL]]
   \<and> ''data:text/html,'' @ [NUL] \<noteq> ''data:text/html,'' @ url_encode True []
   \<and> map_option navigated (navigate True ''data:text/html,100%'' new_webview) = None"
proof -
  have "url_decode [NUL] = Some []" by code_simp
  moreover have "map_option navigated (navigate True (''data:text/html,'' @ [NUL]) new_webview)
       = Some [''data:text/html,'' @ [NUL]]" by code_simp
  moreover have "map_option navigated (navigate True ''data:text/html,100%'' new_webview) = None"
    by code_simp
  ultimately show ?thesis by (simp add: url_encode_def)
qed

section \<open>Escaping and unescaping\<close>

lemma read_mem_at: "read_mem (a @ x # y) (int (length a)) = Some x"
  by (simp add: read_mem_def)

lemma read_mem_at1: "read_mem (a @ x # y # z) (int (length a) + 1) = Some y"
  by (simp add: read_mem_def nat_add_distrib nth_append)

lemma unescape_char_u: "unescape_char (CHR ''u'') = None"
  by (simp add: unescape_char_def backslash_def dquote_def)

lemma unescape_loop_u:
  assumes "2 < n"
  shows "unescape_loop (a @ backslash # CHR ''u'' # b) (int (length a)) n r out = Some (- 1, out)"
  using assms
  by (subst unescape_loop.simps) (simp add: read_mem_at read_mem_at1 unescape_char_u)

lemma unescape_loop_rejects:
  "escape_units p \<Longrightarrow> length p + 2 < n \<Longrightarrow>
   \<exists>out'. unescape_loop (a @ p @ backslash # CHR ''u'' # b) (int (length a)) n r out
            = Some (- 1, out')"
proof (induction p arbitrary: a n r out rule: escape_units.induct)
  case 1
  then show ?case using unescape_loop_u [of n a b r out] by simp
next
  case (2 c)
  then have c: "c \<noteq> backslash" and n: "2 < n - 1" "2 < n" by simp_all
  have "unescape_loop (a @ [c] @ backslash # CHR ''u'' # b) (int (length a)) n r out
      = unescape_loop ((a @ [c]) @ backslash # CHR ''u'' # b) (int (length (a @ [c]))) (n - 1) (r + 1) (out @ [c])"
    using c n(2) read_mem_at [of a c "backslash # CHR ''u'' # b"]
    by (subst unescape_loop.simps) (simp add: add.commute)
  with unescape_loop_u [OF n(1), of "a @ [c]" b "r + 1" "out @ [c]"] show ?case by simp
next
  case (3 c e cs)
  let ?mem = "a @ (c # e # cs) @ backslash # CHR ''u'' # b"
  from "3.prems" have n: "2 < n" by simp
  have rc: "read_mem ?mem (int (length a)) = Some c"
    using read_mem_at [of a c "e # cs @ backslash # CHR ''u'' # b"] by simp
  have re: "read_mem ?mem (int (length a) + 1) = Some e"
    using read_mem_at1 [of a c e "cs @ backslash # CHR ''u'' # b"] by simp
  show ?case
  proof (cases "c = backslash")
    case True
    show ?thesis
    proof (cases "unescape_char e")
      case None
      with True n rc re show ?thesis
        by (subst unescape_loop.simps) simp
    next
      case (Some c')
      from "3.prems" True have u: "escape_units cs" and m: "length cs + 2 < n - 1 - 1" by simp_all
      have "unescape_loop ?mem (int (length a)) n r out
          = unescape_loop ((a @ [c, e]) @ cs @ backslash # CHR ''u'' # b) (int (length (a @ [c, e])))
              (n - 1 - 1) (r + 1) (out @ [c'])"
        using True n rc re Some
        by (subst unescape_loop.simps) (simp add: add.commute)
      with "3.IH"(1) [OF True u m, of "a @ [c, e]" "r + 1" "out @ [c']"] show ?thesis by simp
    qed
  next
    case False
    from "3.prems" False have u: "escape_units (e # cs)" and m: "length (e # cs) + 2 < n - 1" by simp_all
    have "unescape_loop ?mem (int (length a)) n r out
        = unescape_loop ((a @ [c]) @ (e # cs) @ backslash # CHR ''u'' # b) (int (length (a @ [c])))
            (n - 1) (r + 1) (out @ [c])"
      using False n rc
      by (subst unescape_loop.simps) (simp add: add.commute)
    with "3.IH"(2) [OF False u m, of "a @ [c]" "r + 1" "out @ [c]"] show ?thesis by simp
  qed
qed

text \<open>
  Claim C5. A quoted buffer whose body holds the escape \<open>\u\<close> after any sequence of
  whole units (plain bytes and backslash pairs) is rejected: \<open>json_unescape\<close> returns
  \<open>-1\<close>, with or without an output buffer, whatever follows the \<open>u\<close> and whatever
  lies after the closing quote.
\<close>

theorem json_unescape_rejects_u:
  assumes "escape_units pre"
  shows "\<exists>out. json_unescape (dquote # pre @ backslash # CHR ''u'' # rest @ dquote # after)
            (length (dquote # pre @ backslash # CHR ''u'' # rest @ [dquote])) out_given
          = Some (- 1, out)"
proof -
  have "length pre + 2 < length (dquote # pre @ backslash # CHR ''u'' # rest @ [dquote])"
    by simp
  from unescape_loop_rejects [OF assms this, of "[dquote]" "rest @ dquote # after" 0 "[]"]
  obtain out' where "unescape_loop (dquote # pre @ backslash # CHR ''u'' # rest @ dquote # after) 1
      (length (dquote # pre @ backslash # CHR ''u'' # rest @ [dquote])) 0 [] = Some (- 1, out')"
    by auto
  then show ?thesis
    by (simp add: json_unescape_def read_mem_def)
qed

theorem json_unescape_rejects_u_witness:
  "escape_units (''ab'' @ [backslash, CHR ''n''])
   \<and> (\<exists>out. json_unescape
          (dquote # (''ab'' @ [backslash, CHR ''n'']) @ backslash # CHR ''u'' # ''0041'' @ [dquote])
          (length (dquote # (''ab'' @ [backslash, CHR ''n'']) @ backslash # CHR ''u'' # ''0041'' @
             [dquote])) True
        = Some (- 1, out))"
proof -
  have e: "escape_units (''ab'' @ [backslash, CHR ''n''])"
    by (simp add: backslash_def)
  show ?thesis
    by (rule conjI [OF e json_unescape_rejects_u [OF e]])
qed

text \<open>
  Claim C6 fails on the code: \<open>json_escape\<close> escapes nothing. The two bytes \<open>\n\<close>
  (backslash, n) come back from \<open>json_unescape\<close> as the single byte \<open>0x0A\<close> with
  length 1, and a lone backslash makes it return \<open>-1\<close>.
\<close>

theorem json_escape_not_inverse:
  "json_unescape (c_str (json_escape [backslash, CHR ''n'']))
      (length (json_escape [backslash, CHR ''n''])) True = Some (1, [CHR 0x0A, NUL])
   \<and> json_unescape (c_str (json_escape [backslash]))
      (length (json_escape [backslash])) True = Some (- 1, [dquote])"
  by code_simp

section \<open>The scanner on the scenario object\<close>

text \<open>
  Claim C1, as the code has it. Searching \<open>scenario_object\<close> for the key \<open>b\<close> returns
  the span \<open>[1,2,3]\<close>. A search by position counts every child at depth 1, the keys of
  an object as well as its values: position 2 is the key \<open>"b"\<close> (span with its quotes,
  \<open>json_parse\<close> gives \<open>b\<close>), and the string \<open>"x"\<close> is at position 5.
\<close>

theorem scenario_spans:
  "span_of scenario_object (json_parse_c scenario_object (Some (c_str ''b'')) 1) = Some ''[1,2,3]''
   \<and> json_parse scenario_object ''b'' 0 = Some ''[1,2,3]''
   \<and> span_of scenario_object (json_parse_c scenario_object None 2) = Some (dquote # ''b'' @ [dquote])
   \<and> json_parse scenario_object [] 2 = Some ''b''
   \<and> span_of scenario_object (json_parse_c scenario_object None 5) = Some (dquote # ''x'' @ [dquote])
   \<and> json_parse scenario_object [] 5 = Some ''x''"
proof -
  have "span_of scenario_object (json_parse_c scenario_object (Some (c_str ''b'')) 1)
      = Some ''[1,2,3]''" by code_simp
  moreover have "json_parse scenario_object ''b'' 0 = Some ''[1,2,3]''" by code_simp
  moreover have "span_of scenario_object (json_parse_c scenario_object None 2)
      = Some (dquote # ''b'' @ [dquote])" by code_simp
  moreover have "json_parse scenario_object [] 2 = Some ''b''" by code_simp
  moreover have "span_of scenario_object (json_parse_c scenario_object None 5)
      = Some (dquote # ''x'' @ [dquote])" by code_simp
  moreover have "json_parse scenario_object [] 5 = Some ''x''" by code_simp
  ultimately show ?thesis by blast
qed

theorem scenario_spans_witness: "json_parse scenario_object [] 5 = Some ''x''"
  using scenario_spans by simp

text \<open>Claim C1 as stated fails: position 2 does not give the string \<open>x\<close>, neither as a
  span nor as the decoded value.\<close>

theorem scenario_position_2_counterexample:
  "json_parse scenario_object [] 2 \<noteq> Some ''x''
   \<and> span_of scenario_object (json_parse_c scenario_object None 2) \<noteq> Some (dquote # ''x'' @ [dquote])"
proof -
  have "json_parse scenario_object [] 2 = Some ''b''" by code_simp
  moreover have "span_of scenario_object (json_parse_c scenario_object None 2)
      = Some (dquote # ''b'' @ [dquote])" by code_simp
  ultimately show ?thesis by simp
qed

section \<open>Dispatch of an inbound message\<close>

lemma add_envelope_fields:
  "json_parse add_envelope ''id'' 0 = Some ''1''"
  "json_parse add_envelope ''method'' 0 = Some ''add''"
  "json_parse add_envelope ''params'' 0 = Some ''[2,3]''"
  by code_simp+

text \<open>
  Claim C2. With a binding registered under \<open>add\<close>, delivering \<open>add_envelope\<close> to
  \<open>on_message\<close> calls that binding's function once, and nothing else happens: the
  record of calls grows by the one call \<open>(f, "1", "[2,3]", arg)\<close>.
\<close>

theorem on_message_add:
  "bindings w ''add'' = Some (Binding f arg) \<Longrightarrow>
   on_message add_envelope w = Some (w\<lparr>invoked := invoked w @ [(f, ''1'', ''[2,3]'', arg)]\<rparr>)"
  by (simp add: on_message_def add_envelope_fields)

theorem on_message_add_witness:
  "bindings (bind ''add'' 7 9 new_webview) ''add'' = Some (Binding 7 9)
   \<and> invoked new_webview = []
   \<and> map_option invoked (on_message add_envelope (bind ''add'' 7 9 new_webview))
       = Some [(7, ''1'', ''[2,3]'', 9)]"
proof -
  have b: "bindings (bind ''add'' 7 9 new_webview) ''add'' = Some (Binding 7 (9::nat))"
    by (simp add: bind_def bind_ctx_def Let_def)
  have "invoked (bind ''add'' 7 9 new_webview) = []"
    by (simp add: bind_def bind_ctx_def engine_init_def Let_def new_webview_def)
  with b on_message_add [OF b] show ?thesis
    by (simp add: new_webview_def)
qed

section \<open>Memory safety and failure of the scanner\<close>

lemma mem_range_Some:
  "0 \<le> a \<Longrightarrow> a + int n \<le> int (length mem) \<Longrightarrow> \<exists>x. mem_range mem a n = Some x"
  by (simp add: mem_range_def)

lemma memcmp_eq_Some:
  assumes "n \<le> length key" "0 \<le> a" "a + int n \<le> int (length buf)"
  shows "\<exists>e. memcmp_eq key buf a n = Some e"
  using assms by (simp add: memcmp_eq_def mem_range_def)

lemma json_track_inv:
  assumes "0 \<le> j_s j" and "j_s j + int (j_sz j) = int (length buf)" and "0 < j_sz j"
    and "case j_k j of None \<Rightarrow> True | Some p \<Rightarrow> 0 \<le> p \<and> p \<le> j_s j"
    and "case j_value j of None \<Rightarrow> True | Some v \<Rightarrow> 0 \<le> v \<and> v \<le> j_s j"
    and "key_ok key keysz"
  shows "case json_track buf key keysz action j of
           Done r \<Rightarrow> good_result buf r
         | Again j' \<Rightarrow> scan_inv buf j'"
proof -
  have cmp: False
    if "memcmp_eq ky buf (p + 1) keysz = None" "key = Some ky" "j_k j = Some p" "0 < keysz"
      "int keysz = j_s j - p - 1" for ky p
  proof -
    from that assms(6) have "keysz \<le> length ky" by (simp add: key_ok_def)
    moreover from that assms(4) have "0 \<le> p + 1" by simp
    moreover from that assms(2) have "p + 1 + int keysz \<le> int (length buf)" by simp
    ultimately have "\<exists>e. memcmp_eq ky buf (p + 1) keysz = Some e" by (rule memcmp_eq_Some)
    with that(1) show False by simp
  qed
  have nokey: "keysz = 0" if "key = None"
    using that assms(6) by (simp add: key_ok_def)
  show ?thesis
    using assms(1-5) nokey
    by (cases action)
      (auto simp: json_track_def Let_def for_step_def start_struct_def scan_inv_def
        split: option.splits if_splits dest: cmp)
qed


lemma read_mem_Some: "0 \<le> a \<Longrightarrow> a < int (length mem) \<Longrightarrow> \<exists>c. read_mem mem a = Some c"
  by (simp add: read_mem_def)

lemma json_iter_inv:
  assumes inv: "scan_inv buf j" and sz: "0 < j_sz j" and key: "key_ok key keysz"
  shows "case json_iter buf key keysz j of
           Done r \<Rightarrow> good_result buf r
         | Again j' \<Rightarrow> scan_inv buf j'"
proof -
  from inv sz obtain c where c: "read_mem buf (j_s j) = Some c"
    using read_mem_Some [of "j_s j" buf] by (auto simp: scan_inv_def)
  show ?thesis
  proof (cases "json_switch (j_state j) (j_utf8_bytes j) c")
    case Fail
    with c inv sz show ?thesis
      by (auto simp: json_iter_def scan_inv_def split: option.splits)
  next
    case Continue
    with c inv sz show ?thesis
      by (auto simp: json_iter_def scan_inv_def for_step_def split: option.splits)
  next
    case (Leave st u bk action)
    let ?j1 = "j\<lparr>j_state := st, j_utf8_bytes := u, j_s := (if bk then j_s j - 1 else j_s j),
                 j_sz := (if bk then j_sz j + 1 else j_sz j)\<rparr>"
    have lit: "j_state j = JSON_STATE_LITERAL" if bk
      using json_switch_back [OF Leave that] by simp
    have 1: "0 \<le> j_s ?j1" using inv lit by (auto simp: scan_inv_def)
    have 2: "j_s ?j1 + int (j_sz ?j1) = int (length buf)" using inv by (auto simp: scan_inv_def)
    have 3: "0 < j_sz ?j1" using sz by simp
    have 4: "case j_k ?j1 of None \<Rightarrow> True | Some p \<Rightarrow> 0 \<le> p \<and> p \<le> j_s ?j1"
      using inv by (auto simp: scan_inv_def split: option.splits)
    have 5: "case j_value ?j1 of None \<Rightarrow> True | Some v \<Rightarrow> 0 \<le> v \<and> v \<le> j_s ?j1"
      using inv by (auto simp: scan_inv_def split: option.splits)
    from json_track_inv [OF 1 2 3 4 5 key, of action] c Leave show ?thesis
      by (simp add: json_iter_def)
  qed
qed

lemma json_loop_good:
  "scan_inv buf j \<Longrightarrow> key_ok key keysz \<Longrightarrow> good_result buf (json_loop buf key keysz j)"
proof (induction buf key keysz j rule: json_loop.induct)
  case (1 buf key keysz j)
  show ?case
  proof (cases "0 < j_sz j")
    case False
    with "1.prems"(1) show ?thesis
      by (subst json_loop.simps) (auto simp: scan_inv_def split: option.splits)
  next
    case True
    from json_iter_inv [OF "1.prems"(1) True "1.prems"(2)] show ?thesis
    proof (cases "json_iter buf key keysz j")
      case (Done r)
      with True json_iter_inv [OF "1.prems"(1) True "1.prems"(2)] show ?thesis
        by (subst json_loop.simps) simp
    next
      case (Again j')
      with json_iter_inv [OF "1.prems"(1) True "1.prems"(2)] have "scan_inv buf j'" by simp
      from "1.IH" [OF True Again this "1.prems"(2)] True Again show ?thesis
        by (subst json_loop.simps) simp
    qed
  qed
qed

lemma scan_inv_init: "scan_inv buf (json_init buf key keysz)"
  by (simp add: scan_inv_def json_init_def)

lemma json_parse_c_good:
  assumes "case key of None \<Rightarrow> True | Some ky \<Rightarrow> keysz \<le> length ky"
  shows "good_result buf (json_parse_c buf key keysz)"
proof -
  from assms have "key_ok key (json_keysz key keysz)"
    by (auto simp: key_ok_def json_keysz_def split: option.splits)
  with scan_inv_init show ?thesis
    unfolding json_parse_c_def by (rule json_loop_good)
qed

lemma unescape_loop_defined:
  "0 \<le> i \<Longrightarrow> i < int (length mem) \<Longrightarrow> i + int n \<le> int (length mem) \<Longrightarrow>
   \<exists>res. unescape_loop mem i n r out = Some res"
proof (induction mem i n r out rule: unescape_loop.induct)
  case (1 mem i n r out)
  from "1.prems" obtain c where c: "read_mem mem i = Some c"
    using read_mem_Some [of i mem] by auto
  show ?case
  proof (cases "2 < n")
    case False
    with c show ?thesis by (subst unescape_loop.simps) simp
  next
    case True
    note n = this
    show ?thesis
    proof (cases "c = backslash")
      case False
      from "1.IH"(2) [OF n c False] "1.prems" n obtain res where
        "unescape_loop mem (i + 1) (n - 1) (r + 1) (out @ [c]) = Some res" by auto
      with n c False show ?thesis by (subst unescape_loop.simps) simp
    next
      case True
      from "1.prems" n obtain e where e: "read_mem mem (i + 1) = Some e"
        using read_mem_Some [of "i + 1" mem] by auto
      show ?thesis
      proof (cases "unescape_char e")
        case None
        with n c True e show ?thesis by (subst unescape_loop.simps) simp
      next
        case (Some c')
        from "1.IH"(1) [OF n c True e Some] "1.prems" n obtain res where
          "unescape_loop mem (i + 1 + 1) (n - 1 - 1) (r + 1) (out @ [c']) = Some res" by auto
        with n c True e Some show ?thesis by (subst unescape_loop.simps) simp
      qed
    qed
  qed
qed

lemma json_unescape_defined:
  assumes "1 < length mem" and "n + 1 \<le> length mem"
  shows "\<exists>res. json_unescape mem n og = Some res"
proof -
  from assms have "read_mem mem 0 = Some (mem ! 0)"
    by (cases mem) (simp_all add: read_mem_def)
  then obtain c where c: "read_mem mem 0 = Some c" ..
  from assms obtain res where "unescape_loop mem 1 n 0 [] = Some res"
    using unescape_loop_defined [of 1 mem n 0 "[]"] by auto
  with c show ?thesis
    by (cases res) (simp add: json_unescape_def)
qed


lemma good_result_bounds:
  assumes "good_result buf (Returned rc (Some p) n)"
  shows "0 \<le> p \<and> p < int (length buf) \<and> p + int n \<le> int (length buf)"
  using assms by (auto split: if_splits)

lemma json_parse_defined: "\<exists>r. json_parse s key index = Some r"
proof -
  define R where "R = (if key = [] then json_parse_c s None (to_size_t index)
            else json_parse_c s (Some (c_str key)) (length key))"
  have g: "good_result s R"
    unfolding R_def by (auto intro: json_parse_c_good simp: c_str_def)
  have eq: "json_parse s key index =
     (case R of
        Bad_read \<Rightarrow> None
      | Returned rc None value_sz \<Rightarrow> Some []
      | Returned rc (Some v) value_sz \<Rightarrow>
          (case read_mem (c_str s) v of
             None \<Rightarrow> None
           | Some c0 \<Rightarrow>
               if c0 \<noteq> dquote then mem_range (c_str s) v value_sz
               else
                 (case json_unescape (drop (nat v) (c_str s)) value_sz False of
                    None \<Rightarrow> None
                  | Some (n, _) \<Rightarrow>
                      if n > 0 then
                        (case json_unescape (drop (nat v) (c_str s)) value_sz True of
                           None \<Rightarrow> None
                         | Some (_, decoded) \<Rightarrow> Some (take (nat n) decoded))
                      else Some [])))"
    unfolding R_def json_parse_def ..
  show ?thesis
  proof (cases R)
    case Bad_read
    with g show ?thesis by simp
  next
    case (Returned rc v n)
    show ?thesis
    proof (cases v)
      case None
      with Returned eq show ?thesis by simp
    next
      case (Some p)
      with Returned g have b: "0 \<le> p" "p < int (length s)" "p + int n \<le> int (length s)"
        using good_result_bounds [of s rc p n] by simp_all
      then obtain c0 where c0: "read_mem (c_str s) p = Some c0"
        using read_mem_Some [of p "c_str s"] by (auto simp: c_str_def)
      show ?thesis
      proof (cases "c0 = dquote")
        case False
        from b have "\<exists>x. mem_range (c_str s) p n = Some x"
          by (intro mem_range_Some) (simp_all add: c_str_def)
        with False Returned Some c0 eq show ?thesis by auto
      next
        case True
        from b have l: "1 < length (drop (nat p) (c_str s))" "n + 1 \<le> length (drop (nat p) (c_str s))"
          by (simp_all add: c_str_def)
        from json_unescape_defined [OF l] obtain r1 o1 r2 o2 where
          u: "json_unescape (drop (nat p) (c_str s)) n False = Some (r1, o1)"
             "json_unescape (drop (nat p) (c_str s)) n True = Some (r2, o2)"
          by (metis surj_pair)
        with True Returned Some c0 eq show ?thesis by auto
      qed
    qed
  qed
qed

lemma scan_after_loop:
  "scan_after i buf key keysz j0 = Some j \<Longrightarrow>
   json_loop buf key keysz j0 = json_loop buf key keysz j"
proof (induction i arbitrary: j0)
  case 0
  then show ?case by simp
next
  case (Suc i)
  from Suc.prems obtain j1 where sz: "0 < j_sz j0"
    and it: "json_iter buf key keysz j0 = Again j1"
    and af: "scan_after i buf key keysz j1 = Some j"
    by (auto split: if_splits iter_result.splits)
  from sz it have "json_loop buf key keysz j0 = json_loop buf key keysz j1"
    by (subst json_loop.simps) simp
  with Suc.IH [OF af] show ?case by simp
qed

lemma malformed_Fail: "malformed st c \<Longrightarrow> json_switch st u c = Fail"
  by (cases st) (auto simp: string_case_def uchar_def dquote_def backslash_def)

lemma json_loop_stops:
  assumes "j_sz j = 0 \<or> (read_mem buf (j_s j) = Some c \<and> malformed (j_state j) c)"
  shows "json_loop buf key keysz j = Returned (- 1) (j_value j) 0"
proof (cases "0 < j_sz j")
  case False
  then show ?thesis by (subst json_loop.simps) simp
next
  case True
  with assms have "read_mem buf (j_s j) = Some c" "json_switch (j_state j) (j_utf8_bytes j) c = Fail"
    by (auto intro: malformed_Fail)
  with True show ?thesis
    by (subst json_loop.simps) (simp add: json_iter_def)
qed

text \<open>
  Claim C8, as the code has it. Given a key of at least \<open>keysz\<close> readable bytes,
  \<open>json_parse_c\<close> returns (the loop is a total function), never reads outside the
  \<open>sz\<close> bytes of the buffer (\<open>Bad_read\<close> is excluded), and returns either \<open>0\<close> with
  a non-empty span inside the buffer or \<open>-1\<close> with size \<open>0\<close>; on failure \<open>*value\<close>
  is not reset: it is \<open>NULL\<close> or the start of a value found before the failure. Whenever
  the scan gets as far as a malformed byte (\<open>malformed\<close>) or the end of the buffer, the
  result is \<open>-1\<close> with size \<open>0\<close> and \<open>*value\<close> as it was then.
\<close>

theorem json_parse_c_failure:
  assumes "case key of None \<Rightarrow> True | Some ky \<Rightarrow> keysz \<le> length ky"
  shows "((\<exists>v n. json_parse_c buf key keysz = Returned 0 (Some v) n
              \<and> 0 \<le> v \<and> 0 < n \<and> v + int n \<le> int (length buf))
          \<or> (\<exists>v. json_parse_c buf key keysz = Returned (- 1) v 0
              \<and> (case v of None \<Rightarrow> True | Some p \<Rightarrow> 0 \<le> p \<and> p < int (length buf))))
       \<and> (\<forall>i j c. scan_at buf key keysz i = Some j
              \<and> (j_sz j = 0 \<or> (read_mem buf (j_s j) = Some c \<and> malformed (j_state j) c))
            \<longrightarrow> json_parse_c buf key keysz = Returned (- 1) (j_value j) 0)"
proof (intro conjI allI impI)
  from json_parse_c_good [OF assms, of buf]
  show "(\<exists>v n. json_parse_c buf key keysz = Returned 0 (Some v) n
              \<and> 0 \<le> v \<and> 0 < n \<and> v + int n \<le> int (length buf))
          \<or> (\<exists>v. json_parse_c buf key keysz = Returned (- 1) v 0
              \<and> (case v of None \<Rightarrow> True | Some p \<Rightarrow> 0 \<le> p \<and> p < int (length buf)))"
    by (cases "json_parse_c buf key keysz") (auto split: if_splits option.splits)
next
  fix i j c
  assume a: "scan_at buf key keysz i = Some j
     \<and> (j_sz j = 0 \<or> (read_mem buf (j_s j) = Some c \<and> malformed (j_state j) c))"
  then have "scan_after i buf key (json_keysz key keysz) (json_init buf key keysz) = Some j"
    by (simp add: scan_at_def)
  then have "json_parse_c buf key keysz = json_loop buf key (json_keysz key keysz) j"
    unfolding json_parse_c_def by (rule scan_after_loop)
  moreover from a have "json_loop buf key (json_keysz key keysz) j = Returned (- 1) (j_value j) 0"
    by (intro json_loop_stops [of j buf c]) blast
  ultimately show "json_parse_c buf key keysz = Returned (- 1) (j_value j) 0"
    by simp
qed

lemma control_in_first_literal_scan: "scan_at control_in_first_literal None 0 2 =
     Some \<lparr>j_s = 2, j_sz = 2, j_state = JSON_STATE_LITERAL, j_k = None, j_index = 0, j_depth = 1,
           j_utf8_bytes = 0, j_value = Some 1\<rparr>"
  by code_simp

theorem json_parse_c_failure_witness:
  "json_parse_c control_in_first_literal None 0 = Returned (- 1) (Some 1) 0"
proof -
  let ?j = "\<lparr>j_s = 2, j_sz = 2, j_state = JSON_STATE_LITERAL, j_k = None, j_index = 0, j_depth = 1,
           j_utf8_bytes = 0, j_value = Some 1\<rparr>"
  have r: "read_mem control_in_first_literal (j_s ?j) = Some (CHR 0x01)" by code_simp
  have m: "malformed (j_state ?j) (CHR 0x01)" by (simp add: uchar_def)
  have k: "case None :: string option of None \<Rightarrow> True | Some ky \<Rightarrow> 0 \<le> length ky" by simp
  from json_parse_c_failure [OF k, of control_in_first_literal] control_in_first_literal_scan r m
  have "json_parse_c control_in_first_literal None 0 = Returned (- 1) (j_value ?j) 0"
    by blast
  then show ?thesis by simp
qed

text \<open>Claim C8 as stated fails twice: after an unterminated string that is the value looked
  for, the result is \<open>-1\<close> with \<open>*value\<close> pointing at the string, not \<open>NULL\<close>; and a
  control character inside a literal that lies behind the value looked for is never read,
  so the scan succeeds.\<close>

theorem json_parse_c_failure_counterexample:
  "json_parse_c unterminated_object (Some (c_str ''a'')) 1 = Returned (- 1) (Some 5) 0
   \<and> json_parse_c control_in_literal None 0 = Returned 0 (Some 1) 1"
proof -
  have "json_parse_c unterminated_object (Some (c_str ''a'')) 1 = Returned (- 1) (Some 5) 0"
    by code_simp
  moreover have "json_parse_c control_in_literal None 0 = Returned 0 (Some 1) 1"
    by code_simp
  ultimately show ?thesis ..
qed

lemma on_message_unregistered:
  assumes "json_parse msg ''method'' 0 = Some name" and "bindings w name = None"
  shows "on_message msg w = Some w"
proof -
  obtain seq where "json_parse msg ''id'' 0 = Some seq"
    using json_parse_defined by blast
  moreover obtain args where "json_parse msg ''params'' 0 = Some args"
    using json_parse_defined by blast
  ultimately show ?thesis
    using assms by (simp add: on_message_def)
qed


text \<open>\<open>json_parse\<close> is memory-safe: for every string, key and index it returns a
  string, without a read outside \<open>s.c_str()\<close>.\<close>

theorem json_parse_reads_in_bounds: "json_parse s key index \<noteq> None"
  using json_parse_defined [of s key index] by auto

text \<open>
  Claim C4. Every message has a decoded method name (\<open>json_parse\<close> never reads outside the
  message), and when no binding is registered under that name, \<open>on_message\<close> returns with
  the whole state as it was: no callback is recorded, nothing is posted or evaluated, and
  there is no error.
\<close>

theorem on_message_drops_unregistered:
  "\<exists>name. json_parse msg ''method'' 0 = Some name
     \<and> (bindings w name = None \<longrightarrow> on_message msg w = Some w)"
  using json_parse_defined [of msg "''method''" 0] on_message_unregistered by blast

theorem on_message_drops_unregistered_witness:
  "json_parse add_envelope ''method'' 0 = Some ''add'' \<and> bindings new_webview ''add'' = None
   \<and> on_message add_envelope new_webview = Some new_webview"
proof -
  have b: "bindings new_webview ''add'' = None" by (simp add: new_webview_def)
  from on_message_drops_unregistered [of add_envelope new_webview] add_envelope_fields(2) b
  show ?thesis by auto
qed

section \<open>Resolution\<close>

text \<open>
  Claim C3. \<open>resolve\<close> posts exactly one closure and changes nothing else. Run on any
  state, the closure evaluates exactly one script: \<open>window._rpc[seq].resolve(result)\<close>
  when \<open>status = 0\<close> and \<open>window._rpc[seq].reject(result)\<close> otherwise, followed in both
  cases by \<open>window._rpc[seq] = undefined\<close>; \<open>seq\<close> and \<open>result\<close> are inserted as they are.
\<close>

theorem resolve_posts_one_script:
  "\<exists>f. resolve seq status result w = w\<lparr>dispatched := dispatched w @ [f]\<rparr>
     \<and> (\<forall>w' :: ('f, 'a) webview.
          run_closure f w' =
            w'\<lparr>evaluated := evaluated w' @
               [''window._rpc['' @ seq @ ''].'' @ (if status = 0 then ''resolve'' else ''reject'') @
                ''('' @ result @ ''); window._rpc['' @ seq @ ''] = undefined'']\<rparr>)"
  by (rule exI [of _ "Resolve_closure seq status result"])
    (simp add: resolve_def engine_dispatch_def engine_eval_def)

theorem resolve_posts_one_script_witness:
  "evaluated (run_dispatched (resolve ''7'' 0 ''42'' new_webview))
     = [''window._rpc[7].resolve(42); window._rpc[7] = undefined'']
   \<and> evaluated (run_dispatched (resolve ''7'' 1 (dquote # ''boom'' @ [dquote]) new_webview))
     = [''window._rpc[7].reject('' @ dquote # ''boom'' @ dquote # ''); window._rpc[7] = undefined'']"
proof -
  obtain f where f: "resolve ''7'' 0 ''42'' new_webview
        = new_webview\<lparr>dispatched := dispatched new_webview @ [f]\<rparr>"
      "\<And>w' :: (nat, nat) webview. run_closure f w' =
          w'\<lparr>evaluated := evaluated w' @
            [''window._rpc['' @ ''7'' @ ''].'' @ (if (0::int) = 0 then ''resolve'' else ''reject'') @
             ''('' @ ''42'' @ ''); window._rpc['' @ ''7'' @ ''] = undefined'']\<rparr>"
    using resolve_posts_one_script [of "''7''" 0 "''42''" new_webview] by blast
  obtain g where g: "resolve ''7'' 1 (dquote # ''boom'' @ [dquote]) new_webview
        = new_webview\<lparr>dispatched := dispatched new_webview @ [g]\<rparr>"
      "\<And>w' :: (nat, nat) webview. run_closure g w' =
          w'\<lparr>evaluated := evaluated w' @
            [''window._rpc['' @ ''7'' @ ''].'' @ (if (1::int) = 0 then ''resolve'' else ''reject'') @
             ''('' @ (dquote # ''boom'' @ [dquote]) @ ''); window._rpc['' @ ''7'' @ ''] = undefined'']\<rparr>"
    using resolve_posts_one_script [of "''7''" 1 "dquote # ''boom'' @ [dquote]" new_webview] by blast
  show ?thesis
    unfolding run_dispatched_def f(1) g(1)
    by (simp add: f(2) g(2) new_webview_def)
qed

section \<open>The binding table\<close>

lemma bindings_bind_ctx: "bindings (bind_ctx name b w) = (bindings w)(name \<mapsto> b)"
  by (simp add: bind_ctx_def engine_init_def Let_def)

lemma bindings_run_closure: "bindings (run_closure f w) = bindings w"
  by (cases f) (simp add: engine_eval_def)

lemma bindings_call_binding: "bindings (call_binding b seq req w) = bindings w"
  by (cases b) (simp_all add: resolve_def engine_dispatch_def)

lemma bindings_exec:
  assumes "exec cs op w = Some w'"
  shows "bindings w' = bindings w ++ map_of (rev (registrations [op]))"
  using assms
  by (cases op)
    (auto simp: navigate_def engine_navigate_def on_message_def bindings_call_binding
      run_dispatched_def bindings_run_closure bind_def bind_sync_def bindings_bind_ctx
      resolve_def engine_dispatch_def
      split: if_splits option.splits list.splits)

lemma registrations_Cons:
  "registrations (op # ops) = registrations [op] @ registrations ops"
  by (cases op) simp_all

text \<open>
  Claim C9. \<open>bindings\<close> is a map, so a name has at most one pair at any time. After any
  run of operations on one webview object the table is the one before it, overridden by
  the registrations of the run with the last registration of a name winning
  (\<open>map_of\<close> takes the first pair for a key, here of the reversed list); operations
  that are not a \<open>bind\<close> contribute nothing, and a repeated registration is no error.
\<close>

theorem bindings_after_run:
  "run cs ops w = Some w' \<Longrightarrow> bindings w' = bindings w ++ map_of (rev (registrations ops))"
proof (induction ops arbitrary: w)
  case Nil
  then show ?case by simp
next
  case (Cons op ops)
  from Cons.prems obtain w1 where w1: "exec cs op w = Some w1" and r: "run cs ops w1 = Some w'"
    by (auto split: option.splits)
  have "bindings w' = bindings w1 ++ map_of (rev (registrations ops))"
    by (rule Cons.IH [OF r])
  also have "bindings w1 = bindings w ++ map_of (rev (registrations [op]))"
    by (rule bindings_exec [OF w1])
  finally show ?case
    by (subst registrations_Cons) (simp only: rev_append map_of_append map_add_assoc)
qed

theorem bindings_after_run_witness:
  "\<exists>w'. run True [Bind ''add'' 1 10, Resolve ''7'' 0 ''42'', Bind ''sub'' 2 20, On_message add_envelope,
                  Bind ''add'' 3 30, Navigate [], Run_dispatched] new_webview = Some w'
     \<and> bindings w' ''add'' = Some (Binding 3 30) \<and> bindings w' ''sub'' = Some (Binding 2 20)
     \<and> bindings w' ''mul'' = None"
proof -
  obtain w' where w': "run True [Bind ''add'' 1 10, Resolve ''7'' 0 ''42'', Bind ''sub'' 2 20,
      On_message add_envelope, Bind ''add'' 3 30, Navigate [], Run_dispatched] new_webview = Some w'"
    by (simp add: on_message_def add_envelope_fields navigate_def bind_def bind_ctx_def Let_def
        engine_init_def resolve_def engine_dispatch_def engine_navigate_def run_dispatched_def
        engine_eval_def)
  from bindings_after_run [OF w'] have "bindings w' =
      bindings new_webview ++ map_of [(''add'', Binding 3 30), (''sub'', Binding 2 20), (''add'', Binding 1 10)]"
    by simp
  with w' show ?thesis
    by (simp add: new_webview_def)
qed

end
